theory Spec2Isabelle
  imports Main "HOL-Library.Word"
begin

unbundle bit_operations_syntax

section \<open>Shader resource and binding descriptor model (shader\_recompiler/info.h)\<close>

text \<open>
  A shallow embedding of the member functions of \<^verbatim>\<open>Shader::Info\<close>, of its nested
  \<^verbatim>\<open>UserDataMask\<close>, of \<^verbatim>\<open>PushData\<close> and of the resource entries. Fixed-width
  integers are words; \<^verbatim>\<open>size_t\<close> quantities that only count list elements are
  natural numbers and are narrowed with \<open>of_nat\<close> where the source stores them in a
  \<^verbatim>\<open>u32\<close>. A failed \<^verbatim>\<open>ASSERT\<close> and a read outside the \<^verbatim>\<open>user_data\<close> span are
  results of the model, not unspecified values.
\<close>

type_synonym u8 = "8 word"
type_synonym s8 = "8 word"
type_synonym u32 = "32 word"
type_synonym u64 = "64 word"
type_synonym VAddr = "64 word"

datatype error = AssertFailed | OutOfBounds

subsection \<open>Constants\<close>

definition NumUserDataRegs :: nat where
  "NumUserDataRegs = 16"

definition MaxUboSize :: nat where
  "MaxUboSize = 65536"

definition MaxUboDwords :: nat where
  "MaxUboDwords = drop_bit 2 MaxUboSize"

subsection \<open>Bit counting (the header \<^verbatim>\<open>bit\<close> of the C++ standard library)\<close>

text \<open>
  \<^verbatim>\<open>std::popcount\<close> and \<^verbatim>\<open>std::countr_zero\<close> on a \<^verbatim>\<open>u32\<close>. \<open>set_bits\<close> lists the
  indices of the one-bits, lowest first; \<open>countr_zero\<close> is 32 on the zero word, as in
  the standard.
\<close>

definition set_bits :: "u32 \<Rightarrow> nat list" where
  "set_bits w = filter (bit w) [0..<32]"

definition popcount :: "u32 \<Rightarrow> nat" where
  "popcount w = length (set_bits w)"

definition countr_zero :: "u32 \<Rightarrow> nat" where
  "countr_zero w = length (takeWhile (\<lambda>i. \<not> bit w i) [0..<32])"

subsection \<open>Resource entries\<close>

text \<open>
  The descriptor types \<^verbatim>\<open>AmdGpu::Buffer\<close>, \<^verbatim>\<open>AmdGpu::Image\<close> and \<^verbatim>\<open>AmdGpu::Sampler\<close>
  are declared in \<^verbatim>\<open>video_core/amdgpu/resource.h\<close>, which is not part of the sources
  at hand. A descriptor is kept as its object representation, the bytes that
  \<^verbatim>\<open>std::memcpy\<close> moves; its size, its \<^verbatim>\<open>operator bool\<close> and \<^verbatim>\<open>GetSize\<close> are
  parameters of the functions that use them. The classification members
  (\<^verbatim>\<open>used_types\<close>, \<^verbatim>\<open>nfmt\<close>, \<^verbatim>\<open>type\<close>) have types of headers that are absent as well
  and are read by none of the functions below; they are left out.
\<close>

type_synonym sharp = "u8 list"

record BufferResource =
  sgpr_base :: u32
  dword_offset :: u32
  inline_cbuf :: sharp
  is_gds_buffer :: bool
  is_instance_data :: bool
  is_written :: bool

record TextureBufferResource =
  sgpr_base :: u32
  dword_offset :: u32
  is_written :: bool

record ImageResource =
  sgpr_base :: u32
  dword_offset :: u32
  is_storage :: bool
  is_depth :: bool
  is_atomic :: bool
  is_array :: bool

record SamplerResource =
  sgpr_base :: u32
  dword_offset :: u32
  inline_sampler :: sharp
  associated_image :: "4 word"
  disable_aniso :: "1 word"

definition IsStorage :: "('b \<Rightarrow> u32) \<Rightarrow> BufferResource \<Rightarrow> 'b \<Rightarrow> bool" where
  "IsStorage GetSize r buffer \<longleftrightarrow>
     MaxUboSize < unat (GetSize buffer) \<or> BufferResource.is_written r \<or> is_gds_buffer r"

subsection \<open>The per-draw constant block\<close>

record PushData =
  step0 :: u32
  step1 :: u32
  buf_offsets :: "u8 list"
  ud_regs :: "u32 list"

definition BufOffsetIndex :: u32 where
  "BufOffsetIndex = 2"

definition UdRegsIndex :: u32 where
  "UdRegsIndex = 4"

definition AddOffset :: "PushData \<Rightarrow> u32 \<Rightarrow> u32 \<Rightarrow> error + PushData" where
  "AddOffset push binding offset =
     (if offset < 256 \<and> unat binding < length (buf_offsets push)
      then Inr (push\<lparr>buf_offsets := (buf_offsets push)[unat binding := ucast offset]\<rparr>)
      else Inl AssertFailed)"

subsection \<open>The register map\<close>

text \<open>
  \<^verbatim>\<open>IR::ScalarReg\<close> is an enumeration of \<^verbatim>\<open>shader_recompiler/ir/reg.h\<close>; only its
  numeric value, obtained by \<^verbatim>\<open>static_cast<u32>\<close>, is used here, so a register is a
  natural number. The shifts \<^verbatim>\<open>1 << reg\<close> are on \<^verbatim>\<open>int\<close>; they are modelled on 32-bit
  two's complement with wrap-around, so that \<^verbatim>\<open>(1 << 31) - 1\<close> is \<^verbatim>\<open>0x7FFFFFFF\<close>. A
  shift by 32 or more is undefined in C++; \<open>push_bit\<close> gives 0 there, and every
  statement below about \<open>UserDataMask_Index\<close> is for a register below 32.
\<close>

type_synonym ScalarReg = nat

record UserDataMask =
  mask :: u32

definition UserDataMask_Set :: "ScalarReg \<Rightarrow> UserDataMask \<Rightarrow> UserDataMask" where
  "UserDataMask_Set reg m = m\<lparr>mask := mask m OR push_bit reg 1\<rparr>"

definition UserDataMask_Index :: "UserDataMask \<Rightarrow> ScalarReg \<Rightarrow> u32" where
  "UserDataMask_Index m reg =
     (let reg_mask = push_bit reg 1 - 1 in of_nat (popcount (mask m AND reg_mask)))"

definition UserDataMask_NumRegs :: "UserDataMask \<Rightarrow> u32" where
  "UserDataMask_NumRegs m = of_nat (popcount (mask m))"

subsection \<open>The binding accumulator\<close>

text \<open>
  Modelled from the spec: \<^verbatim>\<open>Backend::Bindings\<close> of
  \<^verbatim>\<open>shader_recompiler/backend/bindings.h\<close>, which is not part of the sources at hand:
  the running counters for the buffer slot, the unified slot and the user-data register
  slot. The counters are unsigned 32-bit values, like every other counter of this
  header.
\<close>

record Bindings =
  unified :: u32
  buffer :: u32
  user_data :: u32

subsection \<open>The Info record\<close>

text \<open>
  The members that the functions below read. The vertex inputs, the attribute flags,
  the stage tag, the program hash and base and the capability flags are read by none of
  them. \<^verbatim>\<open>user_data\<close> is a \<^verbatim>\<open>std::span<const u32>\<close>: a sequence of register words
  whose length is the extent of the span.
\<close>

record Info =
  ud_mask :: UserDataMask
  vertex_offset_sgpr :: s8
  instance_offset_sgpr :: s8
  buffers :: "BufferResource list"
  texture_buffers :: "TextureBufferResource list"
  images :: "ImageResource list"
  samplers :: "SamplerResource list"
  user_data :: "u32 list"

subsection \<open>Reading a descriptor\<close>

text \<open>
  Memory is byte addressed. \<open>read_bytes\<close> is the \<^verbatim>\<open>std::memcpy\<close> of \<open>n\<close> bytes from
  an address. \<open>ud_bytes\<close> is the object representation of the register words: the
  hosts of the emulator are little-endian, so a word is its four bytes, lowest first,
  and the eight bytes copied into \<^verbatim>\<open>base\<close> are a 64-bit value whose low half is the
  register at \<^verbatim>\<open>ptr_index\<close> and whose high half is the register after it.
\<close>

type_synonym memory = "VAddr \<Rightarrow> u8"

definition read_bytes :: "memory \<Rightarrow> VAddr \<Rightarrow> nat \<Rightarrow> u8 list" where
  "read_bytes mem addr n = map (\<lambda>k. mem (addr + of_nat k)) [0..<n]"

definition word_bytes :: "u32 \<Rightarrow> u8 list" where
  "word_bytes w = map (\<lambda>k. ucast (drop_bit (8 * k) w)) [0..<4]"

definition ud_bytes :: "u32 list \<Rightarrow> u8 list" where
  "ud_bytes ws = concat (map word_bytes ws)"

definition load_pointer :: "u32 list \<Rightarrow> nat \<Rightarrow> u64" where
  "load_pointer ws i = word_cat (ws ! Suc i) (ws ! i)"

definition AddressMask :: u64 where
  "AddressMask = 0xFFFFFFFFFFFF"

text \<open>
  \<^verbatim>\<open>Info::ReadUd\<close>. \<open>NumScalarRegs\<close> stands for \<^verbatim>\<open>IR::NumScalarRegs\<close> (declared in
  \<^verbatim>\<open>reg.h\<close>) and \<open>sz\<close> for \<^verbatim>\<open>sizeof(T)\<close>. The source reads the span unchecked; a read
  of a register word outside the span is the result \<open>OutOfBounds\<close> here. In the branch
  without indirection \<^verbatim>\<open>base\<close> stays \<^verbatim>\<open>user_data.data()\<close>, and \<^verbatim>\<open>base + dword_offset\<close>
  is the register word at index \<^verbatim>\<open>dword_offset\<close> (the argument \<open>dword_off\<close>).
\<close>

definition ReadUd :: "nat \<Rightarrow> nat \<Rightarrow> Info \<Rightarrow> memory \<Rightarrow> u32 \<Rightarrow> u32 \<Rightarrow> error + sharp" where
  "ReadUd NumScalarRegs sz info mem ptr_index dword_off =
     (if unat ptr_index \<noteq> NumScalarRegs then
        (if Suc (unat ptr_index) < length (Info.user_data info) then
           (let base = load_pointer (Info.user_data info) (unat ptr_index);
                base = base AND AddressMask
            in Inr (read_bytes mem (base + 4 * ucast dword_off) sz))
         else Inl OutOfBounds)
      else
        (if 4 * unat dword_off + sz \<le> 4 * length (Info.user_data info) then
           Inr (take sz (drop (4 * unat dword_off) (ud_bytes (Info.user_data info))))
         else Inl OutOfBounds))"

text \<open>
  The four \<^verbatim>\<open>GetSharp\<close> members. \<open>valid\<close> stands for the \<^verbatim>\<open>operator bool\<close> of the
  descriptor type, which the conditional expression applies to the inline descriptor.
\<close>

definition BufferResource_GetSharp ::
  "(sharp \<Rightarrow> bool) \<Rightarrow> nat \<Rightarrow> nat \<Rightarrow> BufferResource \<Rightarrow> Info \<Rightarrow> memory \<Rightarrow> error + sharp" where
  "BufferResource_GetSharp valid NumScalarRegs sz r info mem =
     (if valid (inline_cbuf r) then Inr (inline_cbuf r)
      else ReadUd NumScalarRegs sz info mem
             (BufferResource.sgpr_base r) (BufferResource.dword_offset r))"

definition TextureBufferResource_GetSharp ::
  "nat \<Rightarrow> nat \<Rightarrow> TextureBufferResource \<Rightarrow> Info \<Rightarrow> memory \<Rightarrow> error + sharp" where
  "TextureBufferResource_GetSharp NumScalarRegs sz r info mem =
     ReadUd NumScalarRegs sz info mem
       (TextureBufferResource.sgpr_base r) (TextureBufferResource.dword_offset r)"

definition ImageResource_GetSharp ::
  "nat \<Rightarrow> nat \<Rightarrow> ImageResource \<Rightarrow> Info \<Rightarrow> memory \<Rightarrow> error + sharp" where
  "ImageResource_GetSharp NumScalarRegs sz r info mem =
     ReadUd NumScalarRegs sz info mem
       (ImageResource.sgpr_base r) (ImageResource.dword_offset r)"

definition SamplerResource_GetSharp ::
  "(sharp \<Rightarrow> bool) \<Rightarrow> nat \<Rightarrow> nat \<Rightarrow> SamplerResource \<Rightarrow> Info \<Rightarrow> memory \<Rightarrow> error + sharp" where
  "SamplerResource_GetSharp valid NumScalarRegs sz r info mem =
     (if valid (inline_sampler r) then Inr (inline_sampler r)
      else ReadUd NumScalarRegs sz info mem
             (SamplerResource.sgpr_base r) (SamplerResource.dword_offset r))"

subsection \<open>Packing the user-data registers\<close>

text \<open>
  The loop of \<^verbatim>\<open>Info::PushUd\<close>, with the local \<^verbatim>\<open>mask\<close> as an argument. Each round
  takes the lowest set bit, checks the \<^verbatim>\<open>ASSERT\<close>, clears the bit and stores the
  register at the position of the counter, which it then increments. The span is read
  unchecked in the source; a register index outside the span is \<open>OutOfBounds\<close> here.
\<close>

function PushUd_loop :: "Info \<Rightarrow> u32 \<Rightarrow> Bindings \<Rightarrow> PushData \<Rightarrow> error + Bindings \<times> PushData" where
  "PushUd_loop info m bnd push =
     (if m = 0 then Inr (bnd, push)
      else
        (let index = countr_zero m in
         if \<not> (unat (Bindings.user_data bnd) < NumUserDataRegs \<and> index < NumUserDataRegs)
         then Inl AssertFailed
         else if length (Info.user_data info) \<le> index then Inl OutOfBounds
         else PushUd_loop info (m AND NOT (push_bit index 1))
                (bnd\<lparr>Bindings.user_data := Bindings.user_data bnd + 1\<rparr>)
                (push\<lparr>ud_regs := (ud_regs push)[unat (Bindings.user_data bnd) :=
                                     Info.user_data info ! index]\<rparr>)))"
  by pat_completeness auto

text \<open>Facts about the bit counting functions that the termination of the loop rests on.\<close>

lemma set_set_bits: "set (set_bits w) = {i. bit w i}"
  by (auto simp: set_bits_def dest: bit_imp_le_length)

lemma sorted_set_bits: "sorted (set_bits w)"
  unfolding set_bits_def by (rule sorted_wrt_filter) simp

lemma distinct_set_bits: "distinct (set_bits w)"
  by (simp add: set_bits_def)

lemma set_bits_sorted_list: "set_bits w = sorted_list_of_set {i. bit w i}"
  by (metis set_set_bits sorted_set_bits distinct_set_bits
      sorted_list_of_set.idem_if_sorted_distinct)

lemma countr_zero_le: "countr_zero w \<le> 32"
  unfolding countr_zero_def by (metis length_takeWhile_le length_upt diff_zero)

lemma countr_zero_below:
  assumes j: "j < countr_zero w"
  shows "\<not> bit w j"
proof -
  let ?xs = "takeWhile (\<lambda>i. \<not> bit w i) [0..<32]"
  from j have "?xs ! j \<in> set ?xs" by (simp add: countr_zero_def)
  moreover have "?xs ! j = [0..<32] ! j"
    using j by (simp add: countr_zero_def takeWhile_nth)
  moreover have "j < 32" using j countr_zero_le [of w] by simp
  ultimately have "j \<in> set ?xs" by simp
  then show ?thesis by (auto dest: set_takeWhileD)
qed

lemma countr_zero_bit:
  assumes "w \<noteq> 0"
  shows "countr_zero w < 32 \<and> bit w (countr_zero w)"
proof -
  from assms obtain i where i: "bit w i" by (auto simp: bit_eq_iff)
  then have i32: "i < 32" by (auto dest: bit_imp_le_length)
  have "\<not> i < countr_zero w" using i countr_zero_below by blast
  then have lt: "countr_zero w < 32" using i32 by simp
  then have "length (takeWhile (\<lambda>i. \<not> bit w i) [0..<32]) < length [0..<32]"
    by (simp add: countr_zero_def)
  from nth_length_takeWhile [OF this] have "bit w ([0..<32] ! countr_zero w)"
    by (simp add: countr_zero_def)
  with lt show ?thesis by simp
qed

lemma countr_zero_Min:
  assumes "w \<noteq> 0"
  shows "countr_zero w = Min {i. bit w i}"
proof -
  have fin: "finite {i. bit w i}" by (metis set_set_bits List.finite_set)
  show ?thesis
    by (rule Min_eqI [symmetric, OF fin])
      (use countr_zero_below countr_zero_bit [OF assms] in \<open>auto simp: not_less [symmetric]\<close>)
qed

lemma bit_clear_lowest:
  "bit (w AND NOT (push_bit n 1)) i \<longleftrightarrow> bit w i \<and> i \<noteq> n" for w :: u32
  by (auto simp: bit_simps dest: bit_imp_le_length)

lemma set_bits_step:
  assumes "w \<noteq> 0"
  shows "set_bits w = countr_zero w # set_bits (w AND NOT (push_bit (countr_zero w) 1))"
proof -
  have fin: "finite {i. bit w i}" by (metis set_set_bits List.finite_set)
  have ne: "{i. bit w i} \<noteq> {}" using countr_zero_bit [OF assms] by auto
  have "{i. bit (w AND NOT (push_bit (countr_zero w) 1)) i} = {i. bit w i} - {Min {i. bit w i}}"
    by (auto simp: bit_clear_lowest countr_zero_Min [OF assms] simp del: push_bit_of_1)
  then show ?thesis
    using sorted_list_of_set_nonempty [OF fin ne]
    by (simp add: set_bits_sorted_list countr_zero_Min [OF assms] del: push_bit_of_1)
qed

lemma popcount_step:
  "w \<noteq> 0 \<Longrightarrow> popcount (w AND NOT (push_bit (countr_zero w) 1)) < popcount w"
  by (simp add: popcount_def set_bits_step [of w] del: push_bit_of_1)

termination PushUd_loop
  by (relation "measure (\<lambda>(info, m, bnd, push). popcount m)")
    (simp_all add: popcount_step del: push_bit_of_1)

declare PushUd_loop.simps [simp del]

definition PushUd :: "Info \<Rightarrow> Bindings \<Rightarrow> PushData \<Rightarrow> error + Bindings \<times> PushData" where
  "PushUd info bnd push = PushUd_loop info (mask (ud_mask info)) bnd push"

subsection \<open>Allocating binding slots\<close>

text \<open>
  \<^verbatim>\<open>Info::AddBindings\<close>. The sizes are \<^verbatim>\<open>size_t\<close>; the compound assignments add them
  to a \<^verbatim>\<open>u32\<close> counter and keep the low 32 bits of the sum.
\<close>

definition AddBindings :: "Info \<Rightarrow> Bindings \<Rightarrow> Bindings" where
  "AddBindings info bnd =
     (let total_buffers = length (buffers info) + length (texture_buffers info);
          bnd = bnd\<lparr>buffer := buffer bnd + of_nat total_buffers\<rparr>;
          bnd = bnd\<lparr>unified := unified bnd
                   + of_nat (total_buffers + length (images info) + length (samplers info))\<rparr>
      in bnd\<lparr>Bindings.user_data :=
                Bindings.user_data bnd + UserDataMask_NumRegs (ud_mask info)\<rparr>)"

subsection \<open>Draw offsets\<close>

text \<open>
  \<^verbatim>\<open>Info::GetDrawOffsets\<close>. The comparison with \<^verbatim>\<open>-1\<close> is on the promoted signed value.
  The subscript of the span is a \<^verbatim>\<open>size_t\<close>: a negative register number becomes an
  index beyond every span, so \<open>read_sgpr\<close> is \<open>OutOfBounds\<close> for it, as for any index
  that is not below the length of the span.
\<close>

definition read_sgpr :: "u32 list \<Rightarrow> s8 \<Rightarrow> error + u32" where
  "read_sgpr ws r =
     (if 0 \<le> sint r \<and> nat (sint r) < length ws then Inr (ws ! nat (sint r))
      else Inl OutOfBounds)"

definition GetDrawOffsets :: "Info \<Rightarrow> error + u32 \<times> u32" where
  "GetDrawOffsets info =
     (case (if sint (vertex_offset_sgpr info) \<noteq> - 1
            then read_sgpr (Info.user_data info) (vertex_offset_sgpr info) else Inr 0) of
        Inl e \<Rightarrow> Inl e
      | Inr vertex_offset \<Rightarrow>
          (case (if sint (instance_offset_sgpr info) \<noteq> - 1
                 then read_sgpr (Info.user_data info) (instance_offset_sgpr info) else Inr 0) of
             Inl e \<Rightarrow> Inl e
           | Inr instance_offset \<Rightarrow> Inr (vertex_offset, instance_offset)))"

subsection \<open>Layout of the constant block\<close>

text \<open>
  The members of \<^verbatim>\<open>PushData\<close> in declaration order, each with its size and its
  alignment in bytes: two \<^verbatim>\<open>u32\<close>, an array of 32 \<^verbatim>\<open>u8\<close> and an array of
  \<^verbatim>\<open>NumUserDataRegs\<close> \<^verbatim>\<open>u32\<close>. A standard-layout class places each member at the
  next offset that is a multiple of its alignment, and its size is the end of the last
  member rounded up to the largest alignment. \<open>PushData_extents\<close> says that the two
  lists of the record have the extents of the arrays.
\<close>

type_synonym member = "string \<times> nat \<times> nat"

definition align_up :: "nat \<Rightarrow> nat \<Rightarrow> nat" where
  "align_up a n = ((n + a - 1) div a) * a"

fun member_offsets :: "nat \<Rightarrow> member list \<Rightarrow> (string \<times> nat) list" where
  "member_offsets off [] = []"
| "member_offsets off ((name, sz, al) # ms) =
     (name, align_up al off) # member_offsets (align_up al off + sz) ms"

fun members_end :: "nat \<Rightarrow> member list \<Rightarrow> nat" where
  "members_end off [] = off"
| "members_end off ((name, sz, al) # ms) = members_end (align_up al off + sz) ms"

definition sizeof_struct :: "member list \<Rightarrow> nat" where
  "sizeof_struct ms = align_up (fold max (map (\<lambda>(name, sz, al). al) ms) 1) (members_end 0 ms)"

definition PushData_members :: "member list" where
  "PushData_members =
     [(''step0'', 4, 4), (''step1'', 4, 4), (''buf_offsets'', 32 * 1, 1),
      (''ud_regs'', NumUserDataRegs * 4, 4)]"

definition PushData_extents :: "PushData \<Rightarrow> bool" where
  "PushData_extents push \<longleftrightarrow>
     length (buf_offsets push) = 32 \<and> length (ud_regs push) = NumUserDataRegs"

subsection \<open>Example inputs\<close>

text \<open>
  A stage with two buffers, one texel buffer, one image, no sampler and a register mask
  with the bits 2, 5 and 9.
\<close>

definition stage_example :: Info where
  "stage_example =
     \<lparr>ud_mask = \<lparr>mask = 0x224\<rparr>, vertex_offset_sgpr = - 1, instance_offset_sgpr = - 1,
      buffers = replicate 2
        \<lparr>BufferResource.sgpr_base = 0, BufferResource.dword_offset = 0, inline_cbuf = [],
         is_gds_buffer = False, is_instance_data = False, BufferResource.is_written = False\<rparr>,
      texture_buffers =
        [\<lparr>TextureBufferResource.sgpr_base = 2, TextureBufferResource.dword_offset = 0,
          TextureBufferResource.is_written = False\<rparr>],
      images =
        [\<lparr>ImageResource.sgpr_base = 4, ImageResource.dword_offset = 0, is_storage = False,
          is_depth = False, is_atomic = False, is_array = False\<rparr>],
      samplers = [],
      user_data = map of_nat [100..<116]\<rparr>"

definition zero_bindings :: Bindings where
  "zero_bindings = \<lparr>unified = 0, buffer = 0, user_data = 0\<rparr>"

text \<open>The register map with the bits 2, 5 and 9.\<close>

definition mask_example :: UserDataMask where
  "mask_example = \<lparr>mask = 0x224\<rparr>"

text \<open>A constant block with every entry zero.\<close>

definition push_example :: PushData where
  "push_example =
     \<lparr>step0 = 0, step1 = 0, buf_offsets = replicate 32 0, ud_regs = replicate 16 0\<rparr>"

text \<open>An Info record whose vertex offset register is register 3, holding \<^verbatim>\<open>0x40\<close>, and whose
  instance offset register is unset.\<close>

definition draw_example :: Info where
  "draw_example = stage_example\<lparr>vertex_offset_sgpr := 3,
     Info.user_data := [0, 0, 0, 0x40, 0, 0, 0, 0, 0, 0, 0, 0, 0, 0, 0, 0]\<rparr>"

text \<open>An Info record whose registers 4 and 5 hold a pointer with metadata in its upper 16 bits.\<close>

definition indirect_example :: Info where
  "indirect_example =
     stage_example\<lparr>Info.user_data := [0, 0, 0, 0, 0x1000, 0xABCD0001, 0, 0, 0, 0, 0, 0, 0, 0, 0, 0]\<rparr>"

text \<open>A memory in which every byte is the low byte of its address.\<close>

definition mem_example :: memory where
  "mem_example a = ucast a"

text \<open>A descriptor test that holds when some byte of the descriptor is not zero.\<close>

definition valid_example :: "sharp \<Rightarrow> bool" where
  "valid_example d = list_ex (\<lambda>b. b \<noteq> 0) d"

text \<open>A buffer entry with an inline descriptor.\<close>

definition inline_example :: BufferResource where
  "inline_example =
     \<lparr>BufferResource.sgpr_base = 4, BufferResource.dword_offset = 2,
      inline_cbuf = 0x10 # replicate 15 0,
      is_gds_buffer = False, is_instance_data = False, BufferResource.is_written = False\<rparr>"

section \<open>Properties\<close>

subsection \<open>Binding allocation\<close>

lemma set_bits_0x224: "set_bits 0x224 = [2, 5, 9]"
  by (simp add: set_bits_def upt_rec bit_numeral_simps)

lemma stage_example_counts:
  "length (buffers stage_example) = 2 \<and> length (texture_buffers stage_example) = 1
   \<and> length (images stage_example) = 1 \<and> length (samplers stage_example) = 0
   \<and> UserDataMask_NumRegs (ud_mask stage_example) = 3"
  by (simp add: stage_example_def UserDataMask_NumRegs_def popcount_def set_bits_0x224)

text \<open>
  C1, as the code has it. \<^verbatim>\<open>AddBindings\<close> adds to the buffer counter the number of
  buffer entries plus the number of texel-buffer entries, to the unified counter that sum
  plus the numbers of image and of sampler entries, and to the user-data counter the
  count of the register map; the additions are those of \<^verbatim>\<open>u32\<close>. For a stage with 2
  buffers, 1 texel buffer, 1 image, no sampler and a register map of count 3, a zeroed
  accumulator becomes buffer slot 3, unified slot 4 and user-data slot 3.
\<close>

theorem AddBindings_counters:
  "buffer (AddBindings info bnd)
     = buffer bnd + of_nat (length (buffers info) + length (texture_buffers info))
   \<and> unified (AddBindings info bnd)
     = unified bnd + of_nat (length (buffers info) + length (texture_buffers info)
                              + length (images info) + length (samplers info))
   \<and> Bindings.user_data (AddBindings info bnd)
     = Bindings.user_data bnd + UserDataMask_NumRegs (ud_mask info)
   \<and> (length (buffers info) = 2 \<and> length (texture_buffers info) = 1
        \<and> length (images info) = 1 \<and> length (samplers info) = 0
        \<and> UserDataMask_NumRegs (ud_mask info) = 3
      \<longrightarrow> AddBindings info zero_bindings = \<lparr>unified = 4, buffer = 3, user_data = 3\<rparr>)"
  by (simp add: AddBindings_def Let_def zero_bindings_def)

theorem AddBindings_counters_witness:
  "length (buffers stage_example) = 2 \<and> length (texture_buffers stage_example) = 1
   \<and> length (images stage_example) = 1 \<and> length (samplers stage_example) = 0
   \<and> UserDataMask_NumRegs (ud_mask stage_example) = 3
   \<and> AddBindings stage_example zero_bindings = \<lparr>unified = 4, buffer = 3, user_data = 3\<rparr>"
  using AddBindings_counters [of stage_example zero_bindings] stage_example_counts by blast

text \<open>
  The scenario of C1 as the specification words it, with unified slot 5, does not hold:
  the example stage has the stated counts and its unified slot is not 5.
\<close>

theorem AddBindings_scenario_counterexample:
  "length (buffers stage_example) = 2 \<and> length (texture_buffers stage_example) = 1
   \<and> length (images stage_example) = 1 \<and> length (samplers stage_example) = 0
   \<and> UserDataMask_NumRegs (ud_mask stage_example) = 3
   \<and> AddBindings stage_example zero_bindings \<noteq> \<lparr>unified = 5, buffer = 3, user_data = 3\<rparr>"
  using stage_example_counts by (simp add: AddBindings_def Let_def zero_bindings_def)

subsection \<open>Storage classification\<close>

text \<open>
  C10. \<^verbatim>\<open>IsStorage\<close> holds exactly when the size of the descriptor is greater than
  65536, or the entry is written, or the entry is a GDS buffer; for an entry that is
  neither written nor a GDS buffer it holds exactly when the size is greater than 65536,
  so never for a size of at most 65536.
\<close>

theorem IsStorage_iff:
  "IsStorage GetSize r b
     = (65536 < unat (GetSize b) \<or> BufferResource.is_written r \<or> is_gds_buffer r)
   \<and> IsStorage GetSize (r\<lparr>BufferResource.is_written := False, is_gds_buffer := False\<rparr>) b
     = (65536 < unat (GetSize b))"
  by (auto simp: IsStorage_def MaxUboSize_def)

subsection \<open>The register map\<close>

lemma popcount_card: "popcount w = card {i. bit w i}"
  by (metis popcount_def set_set_bits distinct_set_bits distinct_card)

lemma popcount_le: "popcount w \<le> 32"
  unfolding popcount_def set_bits_def by (metis length_filter_le length_upt diff_zero)

lemma unat_of_nat_popcount: "unat (of_nat (popcount w) :: u32) = popcount w"
  using popcount_le [of w] by (simp add: unat_of_nat)

lemma strict_sorted_set_bits: "sorted_wrt (<) (set_bits w)"
  using sorted_set_bits [of w] distinct_set_bits [of w] by (simp add: strict_sorted_iff)

lemma reg_mask_eq: "push_bit reg 1 - 1 = (Bit_Operations.mask reg :: u32)"
  by (simp add: mask_eq_exp_minus_1)

lemma set_bits_below: "set_bits (w AND Bit_Operations.mask n) = filter (\<lambda>j. j < n) (set_bits w)"
  unfolding set_bits_def filter_filter
  by (rule filter_cong) (auto simp: bit_and_iff bit_mask_iff)

lemma filter_less_nth:
  "sorted_wrt (<) xs \<Longrightarrow> k < length xs \<Longrightarrow> filter (\<lambda>j. j < xs ! k) xs = take k (xs :: nat list)"
proof (induction xs arbitrary: k)
  case Nil
  then show ?case by simp
next
  case (Cons x xs)
  show ?case
  proof (cases k)
    case 0
    with Cons.prems show ?thesis by (auto simp: filter_empty_conv dest: less_imp_not_less)
  next
    case (Suc k')
    with Cons.prems have "x < xs ! k'" by auto
    with Cons Suc show ?thesis by simp
  qed
qed

lemma Index_nth:
  assumes "k < popcount (mask m)"
  shows "UserDataMask_Index m (set_bits (mask m) ! k) = of_nat k"
  using assms filter_less_nth [OF strict_sorted_set_bits, of k "mask m"]
  by (simp add: UserDataMask_Index_def reg_mask_eq popcount_def set_bits_below
      del: push_bit_of_1)

lemma Index_card:
  "unat (UserDataMask_Index m i) = card {j. j < i \<and> bit (mask m) j}"
proof -
  have "{j. j < i \<and> bit (mask m) j} = {j. bit (mask m AND Bit_Operations.mask i) j}"
    by (auto simp: bit_and_iff bit_mask_iff dest: bit_imp_le_length)
  then show ?thesis
    by (simp add: UserDataMask_Index_def reg_mask_eq unat_of_nat_popcount popcount_card [symmetric]
      del: push_bit_of_1)
qed

lemma Index_ranks:
  "map (\<lambda>i. unat (UserDataMask_Index m i)) (set_bits (mask m)) = [0..<popcount (mask m)]"
proof (rule nth_equalityI)
  show "length (map (\<lambda>i. unat (UserDataMask_Index m i)) (set_bits (mask m))) = length [0..<popcount (mask m)]"
    by (simp add: popcount_def)
next
  fix k assume "k < length (map (\<lambda>i. unat (UserDataMask_Index m i)) (set_bits (mask m)))"
  then have k: "k < popcount (mask m)" by (simp add: popcount_def)
  then have "k \<le> 32" using popcount_le [of "mask m"] by simp
  then have "unat (of_nat k :: u32) = k" by (simp add: unat_of_nat)
  with k show "map (\<lambda>i. unat (UserDataMask_Index m i)) (set_bits (mask m)) ! k = [0..<popcount (mask m)] ! k"
    using Index_nth [OF k] by (simp add: popcount_def)
qed

text \<open>
  C3. The count of the register map is the number of set bits of the mask. For an index
  \<open>i\<close> that is set, \<^verbatim>\<open>Index\<close> is the number of set bits strictly below \<open>i\<close>, and it is
  the population count of the mask with every bit at or above \<open>i\<close> cleared
  (\<open>take_bit i\<close>). The set bits in ascending order have the ranks
  \<open>0, 1, \<dots>, count - 1\<close>, in this order.
\<close>

theorem UserDataMask_rank:
  "unat (UserDataMask_NumRegs m) = card {i. bit (mask m) i}
   \<and> (bit (mask m) i \<longrightarrow>
        unat (UserDataMask_Index m i) = card {j. j < i \<and> bit (mask m) j}
        \<and> UserDataMask_Index m i = of_nat (popcount (take_bit i (mask m))))
   \<and> sorted_wrt (<) (set_bits (mask m)) \<and> set (set_bits (mask m)) = {i. bit (mask m) i}
   \<and> map (\<lambda>i. unat (UserDataMask_Index m i)) (set_bits (mask m))
       = [0..<unat (UserDataMask_NumRegs m)]"
proof -
  have "unat (UserDataMask_NumRegs m) = card {i. bit (mask m) i}"
    unfolding UserDataMask_NumRegs_def unat_of_nat_popcount by (rule popcount_card)
  moreover have "UserDataMask_Index m i = of_nat (popcount (take_bit i (mask m)))"
    by (simp add: UserDataMask_Index_def reg_mask_eq take_bit_eq_mask del: push_bit_of_1)
  moreover have "map (\<lambda>i. unat (UserDataMask_Index m i)) (set_bits (mask m))
       = [0..<unat (UserDataMask_NumRegs m)]"
    unfolding UserDataMask_NumRegs_def unat_of_nat_popcount by (rule Index_ranks)
  ultimately show ?thesis
    using Index_card [of m i] strict_sorted_set_bits [of "mask m"] set_set_bits [of "mask m"]
    by blast
qed

lemma set_bits_4: "set_bits 4 = [2]"
  by (simp add: set_bits_def upt_rec bit_numeral_simps)

theorem UserDataMask_rank_witness:
  "bit (mask mask_example) 5
   \<and> UserDataMask_Index mask_example 5 = 1
   \<and> card {j. j < 5 \<and> bit (mask mask_example) j} = 1
   \<and> unat (UserDataMask_NumRegs mask_example) = 3
   \<and> map (\<lambda>i. unat (UserDataMask_Index mask_example i)) [2, 5, 9] = [0, 1, 2]"
proof -
  have b: "bit (mask mask_example) 5"
    by (simp add: mask_example_def bit_numeral_simps)
  have p: "popcount (take_bit 5 (mask mask_example)) = 1"
    by (simp add: mask_example_def popcount_def set_bits_4)
  have s: "set_bits (mask mask_example) = [2, 5, 9]"
    by (simp add: mask_example_def set_bits_0x224)
  have n: "unat (UserDataMask_NumRegs mask_example) = 3"
    by (simp add: UserDataMask_NumRegs_def popcount_def s)
  note r = UserDataMask_rank [of mask_example 5]
  from r b have i: "UserDataMask_Index mask_example 5 = of_nat (popcount (take_bit 5 (mask mask_example)))"
    by blast
  then have i1: "UserDataMask_Index mask_example 5 = 1"
    by (simp only: p of_nat_1)
  from r b have "unat (UserDataMask_Index mask_example 5) = card {j. j < 5 \<and> bit (mask mask_example) j}"
    by blast
  then have c: "card {j. j < 5 \<and> bit (mask mask_example) j} = 1"
    by (simp only: i1 unat_1)
  from r have "map (\<lambda>i. unat (UserDataMask_Index mask_example i)) (set_bits (mask mask_example))
       = [0..<unat (UserDataMask_NumRegs mask_example)]"
    by blast
  then have m: "map (\<lambda>i. unat (UserDataMask_Index mask_example i)) [2, 5, 9] = [0, 1, 2]"
    unfolding s n by (simp add: upt_rec)
  from b i1 c n m show ?thesis by blast
qed


subsection \<open>Packing the user-data registers\<close>

text \<open>
  The loop of \<^verbatim>\<open>PushUd\<close> visits the set bits of the mask lowest first, so it is a
  recursion over \<open>set_bits\<close>: \<open>push_list\<close> is the body of the loop applied to a list
  of register indices.
\<close>

fun push_list :: "u32 list \<Rightarrow> nat list \<Rightarrow> Bindings \<Rightarrow> PushData \<Rightarrow> error + Bindings \<times> PushData" where
  "push_list ud [] bnd push = Inr (bnd, push)"
| "push_list ud (i # is) bnd push =
     (if \<not> (unat (Bindings.user_data bnd) < NumUserDataRegs \<and> i < NumUserDataRegs)
      then Inl AssertFailed
      else if length ud \<le> i then Inl OutOfBounds
      else push_list ud is (bnd\<lparr>Bindings.user_data := Bindings.user_data bnd + 1\<rparr>)
             (push\<lparr>ud_regs := (ud_regs push)[unat (Bindings.user_data bnd) := ud ! i]\<rparr>))"

lemma PushUd_loop_push_list:
  "PushUd_loop info m bnd push = push_list (Info.user_data info) (set_bits m) bnd push"
proof (induction info m bnd push rule: PushUd_loop.induct)
  case (1 info m bnd push)
  show ?case
  proof (cases "m = 0")
    case True
    then show ?thesis by (simp add: set_bits_def PushUd_loop.simps)
  next
    case False
    note step = set_bits_step [OF False]
    show ?thesis
      using False "1.IH" [OF False refl]
      by (subst PushUd_loop.simps, subst step) (simp add: Let_def del: push_bit_of_1)
  qed
qed

lemma unat_counter_Suc:
  "unat c < NumUserDataRegs \<Longrightarrow> unat (c + 1) = Suc (unat c)" for c :: u32
  by (simp add: NumUserDataRegs_def unat_word_ariths)

lemma push_list_ok:
  assumes "\<forall>i\<in>set is. i < NumUserDataRegs"
      and "unat (Bindings.user_data bnd) + length is \<le> NumUserDataRegs"
      and "NumUserDataRegs \<le> length ud"
      and "length (ud_regs push) = NumUserDataRegs"
  shows "push_list ud is bnd push =
           Inr (bnd\<lparr>Bindings.user_data := Bindings.user_data bnd + of_nat (length is)\<rparr>,
                push\<lparr>ud_regs := take (unat (Bindings.user_data bnd)) (ud_regs push)
                                 @ map (nth ud) is
                                 @ drop (unat (Bindings.user_data bnd) + length is) (ud_regs push)\<rparr>)"
  using assms
proof (induction "is" arbitrary: bnd push)
  case Nil
  then show ?case by simp
next
  case (Cons i "is")
  let ?c = "unat (Bindings.user_data bnd)"
  let ?bnd = "bnd\<lparr>Bindings.user_data := Bindings.user_data bnd + 1\<rparr>"
  let ?push = "push\<lparr>ud_regs := (ud_regs push)[?c := ud ! i]\<rparr>"
  from Cons.prems have c: "?c < NumUserDataRegs" and i: "i < NumUserDataRegs" by auto
  from i Cons.prems have iu: "i < length ud" by simp
  have c': "unat (Bindings.user_data ?bnd) = Suc ?c" using c by (simp add: unat_counter_Suc)
  have ih: "push_list ud is ?bnd ?push =
           Inr (?bnd\<lparr>Bindings.user_data := Bindings.user_data ?bnd + of_nat (length is)\<rparr>,
                ?push\<lparr>ud_regs := take (unat (Bindings.user_data ?bnd)) (ud_regs ?push)
                                 @ map (nth ud) is
                                 @ drop (unat (Bindings.user_data ?bnd) + length is) (ud_regs ?push)\<rparr>)"
    using Cons.prems c' by (intro Cons.IH) auto
  have clt: "?c < length (ud_regs push)" using c Cons.prems by simp
  have t: "take (Suc ?c) ((ud_regs push)[?c := ud ! i]) = take ?c (ud_regs push) @ [ud ! i]"
    using clt by (simp add: take_Suc_conv_app_nth)
  have "push_list ud (i # is) bnd push = push_list ud is ?bnd ?push"
    using c i iu by simp
  also note ih
  also have "Inr (?bnd\<lparr>Bindings.user_data := Bindings.user_data ?bnd + of_nat (length is)\<rparr>,
                ?push\<lparr>ud_regs := take (unat (Bindings.user_data ?bnd)) (ud_regs ?push)
                                 @ map (nth ud) is
                                 @ drop (unat (Bindings.user_data ?bnd) + length is) (ud_regs ?push)\<rparr>)
      = (Inr (bnd\<lparr>Bindings.user_data := Bindings.user_data bnd + of_nat (length (i # is))\<rparr>,
                push\<lparr>ud_regs := take ?c (ud_regs push)
                                 @ map (nth ud) (i # is)
                                 @ drop (?c + length (i # is)) (ud_regs push)\<rparr>)
          :: error + Bindings \<times> PushData)"
    using c by (simp add: unat_counter_Suc t)
  finally show ?case .
qed

lemma push_list_assert_iff:
  assumes "NumUserDataRegs \<le> length ud"
  shows "push_list ud is bnd push = Inl AssertFailed \<longleftrightarrow>
           (\<exists>k<length is. \<not> (unat (Bindings.user_data bnd) + k < NumUserDataRegs
                               \<and> is ! k < NumUserDataRegs))"
proof (induction "is" arbitrary: bnd push)
  case Nil
  then show ?case by simp
next
  case (Cons i "is")
  show ?case
  proof (cases "unat (Bindings.user_data bnd) < NumUserDataRegs \<and> i < NumUserDataRegs")
    case False
    then show ?thesis by (auto intro: exI [of _ 0])
  next
    case True
    then have "i < length ud" using assms by simp
    with True show ?thesis
      by (simp add: Cons.IH unat_counter_Suc Ex_less_Suc2)
  qed
qed

lemma push_list_in_bounds:
  assumes "NumUserDataRegs \<le> length ud"
  shows "push_list ud is bnd push \<noteq> Inl OutOfBounds"
proof (induction "is" arbitrary: bnd push)
  case Nil
  then show ?case by simp
next
  case (Cons i "is")
  then show ?case using assms by auto
qed

lemma bit_UserDataMask_Set:
  "r < 32 \<Longrightarrow> bit (mask (UserDataMask_Set r m)) i \<longleftrightarrow> bit (mask m) i \<or> i = r"
  by (auto simp: UserDataMask_Set_def bit_or_iff bit_push_bit_iff bit_1_iff simp del: push_bit_of_1)

lemma bits_fold_Set:
  "\<forall>r\<in>set rs. r < 32 \<Longrightarrow>
     {i. bit (mask (fold UserDataMask_Set rs m)) i} = {i. bit (mask m) i} \<union> set rs"
proof (induction rs arbitrary: m)
  case Nil
  then show ?case by simp
next
  case (Cons r rs)
  then show ?case by (auto simp: bit_UserDataMask_Set)
qed

lemma set_bits_fold_Set:
  assumes "\<forall>r\<in>set rs. r < 32"
  shows "set_bits (mask (fold UserDataMask_Set rs \<lparr>mask = 0\<rparr>)) = sorted_list_of_set (set rs)"
proof -
  have "{i. bit (mask (fold UserDataMask_Set rs \<lparr>mask = 0\<rparr>)) i} = set rs"
    using bits_fold_Set [OF assms, of "\<lparr>mask = 0\<rparr>"] by simp
  then show ?thesis by (simp only: set_bits_sorted_list)
qed

text \<open>
  C2. Let every set bit of the mask be below the number of slots, let the counter plus
  the population count of the mask be at most the number of slots, and let the span and
  the register array have that many entries. Then \<^verbatim>\<open>PushUd\<close> returns; the counter
  has advanced by the population count; the registers of the set bits, taken in
  ascending index order, are in consecutive positions of the array from the initial
  counter on, and the rest of the array is as before. A mask built by \<^verbatim>\<open>Set\<close> calls
  on the registers \<open>rs\<close> has as its set bits the sorted list of the set of \<open>rs\<close>,
  whatever the order of the calls.
\<close>

theorem PushUd_packs:
  fixes info :: Info and bnd :: Bindings and push :: PushData
  defines "m \<equiv> mask (ud_mask info)"
      and "c \<equiv> unat (Bindings.user_data bnd)"
      and "ud \<equiv> Info.user_data info"
  assumes bits: "\<forall>i\<in>set (set_bits m). i < NumUserDataRegs"
      and room: "c + popcount m \<le> NumUserDataRegs"
      and span: "NumUserDataRegs \<le> length ud"
      and regs: "length (ud_regs push) = NumUserDataRegs"
  shows "\<exists>bnd' push'.
           PushUd info bnd push = Inr (bnd', push')
           \<and> bnd' = bnd\<lparr>Bindings.user_data := Bindings.user_data bnd + of_nat (popcount m)\<rparr>
           \<and> unat (Bindings.user_data bnd') = c + popcount m
           \<and> push' = push\<lparr>ud_regs := take c (ud_regs push) @ map (nth ud) (set_bits m)
                                         @ drop (c + popcount m) (ud_regs push)\<rparr>
           \<and> (\<forall>k<popcount m. ud_regs push' ! (c + k) = ud ! (set_bits m ! k))
           \<and> sorted_wrt (<) (set_bits m) \<and> set (set_bits m) = {i. bit m i}
           \<and> (\<forall>rs. (\<forall>r\<in>set rs. r < 32) \<and> ud_mask info = fold UserDataMask_Set rs \<lparr>mask = 0\<rparr>
                  \<longrightarrow> set_bits m = sorted_list_of_set (set rs))"
proof -
  let ?bnd = "bnd\<lparr>Bindings.user_data := Bindings.user_data bnd + of_nat (popcount m)\<rparr>"
  let ?regs = "take c (ud_regs push) @ map (nth ud) (set_bits m) @ drop (c + popcount m) (ud_regs push)"
  have run: "PushUd info bnd push = Inr (?bnd, push\<lparr>ud_regs := ?regs\<rparr>)"
    unfolding PushUd_def PushUd_loop_push_list
    using push_list_ok [of "set_bits m" bnd ud push] bits room span regs
    by (simp add: m_def c_def ud_def popcount_def)
  have "c + popcount m < 2 ^ 32" using room by (simp add: NumUserDataRegs_def)
  then have cnt: "unat (Bindings.user_data ?bnd) = c + popcount m"
    by (simp add: c_def unat_word_ariths unat_of_nat)
  have clen: "c \<le> length (ud_regs push)" using room regs by simp
  have nth: "?regs ! (c + k) = ud ! (set_bits m ! k)" if "k < popcount m" for k
    using that clen by (simp add: nth_append popcount_def)
  have built: "set_bits m = sorted_list_of_set (set rs)"
    if "\<forall>r\<in>set rs. r < 32" and "ud_mask info = fold UserDataMask_Set rs \<lparr>mask = 0\<rparr>" for rs
    using set_bits_fold_Set [OF that(1)] that(2) by (simp add: m_def)
  show ?thesis
    using run cnt nth built strict_sorted_set_bits [of m] set_set_bits [of m] by auto
qed

lemma stage_example_mask: "set_bits (mask (ud_mask stage_example)) = [2, 5, 9]"
  by (simp add: stage_example_def set_bits_0x224)

theorem PushUd_packs_witness:
  "list_all (\<lambda>i. i < NumUserDataRegs) (set_bits (mask (ud_mask stage_example)))
   \<and> unat (Bindings.user_data zero_bindings) + popcount (mask (ud_mask stage_example))
        \<le> NumUserDataRegs
   \<and> NumUserDataRegs \<le> length (Info.user_data stage_example)
   \<and> length (ud_regs push_example) = NumUserDataRegs
   \<and> list_all (\<lambda>r. r < (32 :: nat)) [9, 2, 5]
   \<and> ud_mask stage_example = fold UserDataMask_Set [9, 2, 5] \<lparr>mask = 0\<rparr>
   \<and> set_bits (mask (ud_mask stage_example)) = sorted_list_of_set (set [9, 2, 5])
   \<and> PushUd stage_example zero_bindings push_example
       = Inr (zero_bindings\<lparr>Bindings.user_data := 3\<rparr>,
              push_example\<lparr>ud_regs := [102, 105, 109] @ replicate 13 0\<rparr>)"
proof -
  have h1: "\<forall>i\<in>set (set_bits (mask (ud_mask stage_example))). i < NumUserDataRegs"
    by (simp add: stage_example_mask NumUserDataRegs_def)
  have h2: "unat (Bindings.user_data zero_bindings) + popcount (mask (ud_mask stage_example))
        \<le> NumUserDataRegs"
    by (simp add: popcount_def stage_example_mask zero_bindings_def NumUserDataRegs_def)
  have h3: "NumUserDataRegs \<le> length (Info.user_data stage_example)"
    by (simp add: stage_example_def NumUserDataRegs_def)
  have h4: "length (ud_regs push_example) = NumUserDataRegs"
    by (simp add: push_example_def NumUserDataRegs_def)
  have h5: "\<forall>r\<in>set [9, 2, 5]. r < (32 :: nat)" by simp
  have h6: "ud_mask stage_example = fold UserDataMask_Set [9, 2, 5] \<lparr>mask = 0\<rparr>"
    by (simp add: stage_example_def UserDataMask_Set_def)
  from PushUd_packs [OF h1 h2 h3 h4] h5 h6
  have run: "PushUd stage_example zero_bindings push_example
      = Inr (zero_bindings\<lparr>Bindings.user_data := Bindings.user_data zero_bindings
                 + of_nat (popcount (mask (ud_mask stage_example)))\<rparr>,
             push_example\<lparr>ud_regs := take (unat (Bindings.user_data zero_bindings)) (ud_regs push_example)
                 @ map (nth (Info.user_data stage_example)) (set_bits (mask (ud_mask stage_example)))
                 @ drop (unat (Bindings.user_data zero_bindings) + popcount (mask (ud_mask stage_example)))
                     (ud_regs push_example)\<rparr>)"
    and srt: "set_bits (mask (ud_mask stage_example)) = sorted_list_of_set (set [9, 2, 5])"
    by blast+
  have ud: "map (nth (Info.user_data stage_example)) [2, 5, 9] = [102, 105, 109]"
    by (simp add: stage_example_def)
  have res: "PushUd stage_example zero_bindings push_example
       = Inr (zero_bindings\<lparr>Bindings.user_data := 3\<rparr>,
              push_example\<lparr>ud_regs := [102, 105, 109] @ replicate 13 0\<rparr>)"
    unfolding run popcount_def stage_example_mask ud
    by (simp add: zero_bindings_def push_example_def)
  from h1 h2 h3 h4 h5 h6 srt res show ?thesis by (simp only: list_all_iff simp_thms)
qed

lemma set_bits_empty_iff: "set_bits w = [] \<longleftrightarrow> w = 0"
proof -
  have "set_bits w = [] \<longleftrightarrow> {i. bit w i} = {}"
    by (metis set_set_bits set_empty)
  also have "\<dots> \<longleftrightarrow> w = 0"
  proof
    assume "{i. bit w i} = {}"
    then have "\<not> bit w i" for i by blast
    then show "w = 0" by (simp add: bit_eq_iff)
  next
    assume "w = 0"
    then show "{i. bit w i} = {}" by simp
  qed
  finally show ?thesis .
qed

lemma overflow_position_iff:
  "(\<exists>k<length bs. n \<le> c + k \<or> n \<le> bs ! k)
     \<longleftrightarrow> (\<exists>i\<in>set bs. n \<le> i) \<or> (bs \<noteq> [] \<and> n < c + length bs)"
  for bs :: "nat list"
proof
  assume "\<exists>k<length bs. n \<le> c + k \<or> n \<le> bs ! k"
  then obtain k where k: "k < length bs" and d: "n \<le> c + k \<or> n \<le> bs ! k" by blast
  from d show "(\<exists>i\<in>set bs. n \<le> i) \<or> (bs \<noteq> [] \<and> n < c + length bs)"
  proof
    assume "n \<le> c + k"
    with k show ?thesis by auto
  next
    assume "n \<le> bs ! k"
    with k show ?thesis using nth_mem by blast
  qed
next
  assume "(\<exists>i\<in>set bs. n \<le> i) \<or> (bs \<noteq> [] \<and> n < c + length bs)"
  then show "\<exists>k<length bs. n \<le> c + k \<or> n \<le> bs ! k"
  proof
    assume "\<exists>i\<in>set bs. n \<le> i"
    then show ?thesis by (auto simp: in_set_conv_nth)
  next
    assume a: "bs \<noteq> [] \<and> n < c + length bs"
    then have "length bs - 1 < length bs" and "n \<le> c + (length bs - 1)" by auto
    then show ?thesis by blast
  qed
qed

text \<open>
  C7. With a span of at least 16 registers, \<^verbatim>\<open>PushUd\<close> fails its assertion exactly
  when some set bit would be stored with the counter at 16 or more, or is itself 16 or
  more; that is, when a set bit is 16 or more, or the mask is not empty and the counter
  plus the population count is more than 16. When every set bit is below 16 and the
  counter plus the population count is at most 16, \<^verbatim>\<open>PushUd\<close> returns a result.
\<close>

theorem PushUd_assert:
  fixes info :: Info and bnd :: Bindings and push :: PushData
  defines "m \<equiv> mask (ud_mask info)"
      and "c \<equiv> unat (Bindings.user_data bnd)"
  assumes span: "NumUserDataRegs \<le> length (Info.user_data info)"
  shows "(PushUd info bnd push = Inl AssertFailed \<longleftrightarrow>
            (\<exists>k<popcount m. NumUserDataRegs \<le> c + k \<or> NumUserDataRegs \<le> set_bits m ! k))
       \<and> (PushUd info bnd push = Inl AssertFailed \<longleftrightarrow>
            (\<exists>i\<in>set (set_bits m). NumUserDataRegs \<le> i)
            \<or> (m \<noteq> 0 \<and> NumUserDataRegs < c + popcount m))
       \<and> ((\<forall>i\<in>set (set_bits m). i < NumUserDataRegs) \<and> c + popcount m \<le> NumUserDataRegs
            \<longrightarrow> (\<exists>r. PushUd info bnd push = Inr r))"
proof -
  have pos: "PushUd info bnd push = Inl AssertFailed \<longleftrightarrow>
            (\<exists>k<popcount m. NumUserDataRegs \<le> c + k \<or> NumUserDataRegs \<le> set_bits m ! k)"
    unfolding PushUd_def PushUd_loop_push_list push_list_assert_iff [OF span]
    by (auto simp: m_def c_def popcount_def not_less)
  have whole: "PushUd info bnd push = Inl AssertFailed \<longleftrightarrow>
            (\<exists>i\<in>set (set_bits m). NumUserDataRegs \<le> i)
            \<or> (m \<noteq> 0 \<and> NumUserDataRegs < c + popcount m)"
    unfolding pos popcount_def overflow_position_iff set_bits_empty_iff ..
  have "PushUd info bnd push \<noteq> Inl OutOfBounds"
    unfolding PushUd_def PushUd_loop_push_list by (rule push_list_in_bounds [OF span])
  then have "\<exists>r. PushUd info bnd push = Inr r" if "PushUd info bnd push \<noteq> Inl AssertFailed"
    using that by (cases "PushUd info bnd push") (auto intro: error.exhaust)
  moreover have "PushUd info bnd push \<noteq> Inl AssertFailed"
    if "\<forall>i\<in>set (set_bits m). i < NumUserDataRegs" and "c + popcount m \<le> NumUserDataRegs"
    unfolding whole using that by auto
  ultimately show ?thesis using pos whole by blast
qed

theorem PushUd_assert_witness:
  "NumUserDataRegs \<le> length (Info.user_data stage_example)
   \<and> list_all (\<lambda>i. i < NumUserDataRegs) (set_bits (mask (ud_mask stage_example)))
   \<and> unat (Bindings.user_data zero_bindings) + popcount (mask (ud_mask stage_example))
         \<le> NumUserDataRegs
   \<and> (\<exists>r. PushUd stage_example zero_bindings push_example = Inr r)
   \<and> PushUd stage_example (zero_bindings\<lparr>Bindings.user_data := 14\<rparr>) push_example
       = Inl AssertFailed"
proof -
  have h: "NumUserDataRegs \<le> length (Info.user_data stage_example)"
    by (simp add: stage_example_def NumUserDataRegs_def)
  have b: "\<forall>i\<in>set (set_bits (mask (ud_mask stage_example))). i < NumUserDataRegs"
    by (simp add: stage_example_mask NumUserDataRegs_def)
  have r: "unat (Bindings.user_data zero_bindings) + popcount (mask (ud_mask stage_example))
         \<le> NumUserDataRegs"
    by (simp add: popcount_def stage_example_mask zero_bindings_def NumUserDataRegs_def)
  from PushUd_assert [OF h, of zero_bindings push_example] b r
  have ok: "\<exists>r. PushUd stage_example zero_bindings push_example = Inr r"
    by blast
  have nz: "mask (ud_mask stage_example) \<noteq> 0"
    by (simp add: stage_example_def)
  have over: "NumUserDataRegs
      < unat (Bindings.user_data (zero_bindings\<lparr>Bindings.user_data := 14\<rparr>))
        + popcount (mask (ud_mask stage_example))"
    by (simp add: popcount_def stage_example_mask NumUserDataRegs_def)
  from PushUd_assert [OF h, of "zero_bindings\<lparr>Bindings.user_data := 14\<rparr>" push_example] nz over
  have bad: "PushUd stage_example (zero_bindings\<lparr>Bindings.user_data := 14\<rparr>) push_example
       = Inl AssertFailed"
    by blast
  from h b r ok bad show ?thesis by (simp only: list_all_iff simp_thms)
qed


subsection \<open>Draw offsets\<close>

lemma sint_minus1_iff: "sint r = - 1 \<longleftrightarrow> r = - 1" for r :: s8
  using signed_word_eqI [of r "- 1"] by auto

text \<open>
  C8. When each of the two offset registers is either unset (\<^verbatim>\<open>-1\<close>) or an index into
  the span, \<^verbatim>\<open>GetDrawOffsets\<close> returns, for each of them, 0 when it is unset and the
  register word at that index otherwise. The function takes the Info record and returns
  the pair only: it has no state to change.
\<close>

theorem GetDrawOffsets_value:
  fixes info :: Info
  defines "ud \<equiv> Info.user_data info"
      and "v \<equiv> vertex_offset_sgpr info"
      and "i \<equiv> instance_offset_sgpr info"
  assumes "v = - 1 \<or> (0 \<le> sint v \<and> nat (sint v) < length ud)"
      and "i = - 1 \<or> (0 \<le> sint i \<and> nat (sint i) < length ud)"
  shows "GetDrawOffsets info =
           Inr (if v = - 1 then 0 else ud ! nat (sint v),
                if i = - 1 then 0 else ud ! nat (sint i))"
  using assms
  by (auto simp: GetDrawOffsets_def read_sgpr_def sint_minus1_iff)

theorem GetDrawOffsets_value_witness:
  "vertex_offset_sgpr draw_example = 3 \<and> instance_offset_sgpr draw_example = - 1
   \<and> Info.user_data draw_example ! 3 = 0x40
   \<and> GetDrawOffsets draw_example = Inr (0x40, 0)"
proof -
  have v: "vertex_offset_sgpr draw_example = - 1
      \<or> (0 \<le> sint (vertex_offset_sgpr draw_example)
          \<and> nat (sint (vertex_offset_sgpr draw_example)) < length (Info.user_data draw_example))"
    by (simp add: draw_example_def)
  have i: "instance_offset_sgpr draw_example = - 1
      \<or> (0 \<le> sint (instance_offset_sgpr draw_example)
          \<and> nat (sint (instance_offset_sgpr draw_example)) < length (Info.user_data draw_example))"
    by (simp add: draw_example_def stage_example_def)
  from GetDrawOffsets_value [OF v i]
  show ?thesis by (simp add: draw_example_def stage_example_def)
qed

subsection \<open>The constant block\<close>

lemma push_list_extents:
  "push_list ud is bnd push = Inr (bnd', push') \<Longrightarrow>
     length (ud_regs push') = length (ud_regs push) \<and> buf_offsets push' = buf_offsets push
     \<and> step0 push' = step0 push \<and> step1 push' = step1 push"
proof (induction "is" arbitrary: bnd push)
  case Nil
  then show ?case by simp
next
  case (Cons i "is")
  from Cons.prems
  have "push_list ud is (bnd\<lparr>Bindings.user_data := Bindings.user_data bnd + 1\<rparr>)
          (push\<lparr>ud_regs := (ud_regs push)[unat (Bindings.user_data bnd) := ud ! i]\<rparr>)
        = Inr (bnd', push')"
    by (simp split: if_splits)
  from Cons.IH [OF this] show ?case by simp
qed

text \<open>
  C9. The members of \<^verbatim>\<open>PushData\<close> are at the offsets 0, 4, 8 and 40 and have the
  sizes 4, 4, 32 and 64; the size of the block is 104 bytes, which is at most 128. The
  extents of the two arrays do not depend on what is stored: \<^verbatim>\<open>PushUd\<close> and
  \<^verbatim>\<open>AddOffset\<close> leave them as they are.
\<close>

theorem PushData_layout:
  "member_offsets 0 PushData_members
     = [(''step0'', 0), (''step1'', 4), (''buf_offsets'', 8), (''ud_regs'', 40)]
   \<and> map (\<lambda>(name, sz, al). sz) PushData_members = [4, 4, 32, 64]
   \<and> sizeof_struct PushData_members = 104
   \<and> sizeof_struct PushData_members \<le> 128
   \<and> (PushData_extents push \<longrightarrow>
        (\<forall>info bnd bnd' push'. PushUd info bnd push = Inr (bnd', push') \<longrightarrow> PushData_extents push')
        \<and> (\<forall>binding offset push'. AddOffset push binding offset = Inr push' \<longrightarrow> PushData_extents push'))"
proof -
  have l: "member_offsets 0 PushData_members
     = [(''step0'', 0), (''step1'', 4), (''buf_offsets'', 8), (''ud_regs'', 40)]"
    by (simp add: PushData_members_def NumUserDataRegs_def align_up_def)
  have z: "map (\<lambda>(name, sz, al). sz) PushData_members = [4, 4, 32, 64]"
    by (simp add: PushData_members_def NumUserDataRegs_def)
  have s: "sizeof_struct PushData_members = 104"
    by (simp add: sizeof_struct_def PushData_members_def NumUserDataRegs_def align_up_def)
  have p: "PushData_extents push'"
    if "PushData_extents push" and "PushUd info bnd push = Inr (bnd', push')"
    for info bnd bnd' push'
  proof -
    from that(2) have "push_list (Info.user_data info) (set_bits (mask (ud_mask info))) bnd push
        = Inr (bnd', push')"
      by (simp only: PushUd_def PushUd_loop_push_list)
    from push_list_extents [OF this] that(1) show ?thesis
      by (simp add: PushData_extents_def)
  qed
  have a: "PushData_extents push'"
    if "PushData_extents push" and "AddOffset push binding offset = Inr push'"
    for binding offset push'
    using that by (auto simp: AddOffset_def PushData_extents_def split: if_splits)
  have e: "PushData_extents push \<longrightarrow>
        (\<forall>info bnd bnd' push'. PushUd info bnd push = Inr (bnd', push') \<longrightarrow> PushData_extents push')
        \<and> (\<forall>binding offset push'. AddOffset push binding offset = Inr push' \<longrightarrow> PushData_extents push')"
    using p a by blast
  have s': "sizeof_struct PushData_members \<le> 128" by (simp add: s)
  from l z s s' e show ?thesis by blast
qed

lemma PushUd_example:
  "PushUd stage_example zero_bindings push_example
     = Inr (zero_bindings\<lparr>Bindings.user_data := 3\<rparr>,
            push_example\<lparr>ud_regs := [102, 105, 109] @ replicate 13 0\<rparr>)"
proof -
  have "push_list (Info.user_data stage_example) [2, 5, 9] zero_bindings push_example
      = Inr (zero_bindings\<lparr>Bindings.user_data :=
                Bindings.user_data zero_bindings + of_nat (length [2, 5, 9 :: nat])\<rparr>,
             push_example\<lparr>ud_regs :=
                take (unat (Bindings.user_data zero_bindings)) (ud_regs push_example)
                @ map (nth (Info.user_data stage_example)) [2, 5, 9]
                @ drop (unat (Bindings.user_data zero_bindings) + length [2, 5, 9 :: nat])
                    (ud_regs push_example)\<rparr>)"
    by (rule push_list_ok)
      (simp_all add: NumUserDataRegs_def zero_bindings_def push_example_def stage_example_def)
  then show ?thesis
    unfolding PushUd_def PushUd_loop_push_list stage_example_mask
    by (simp add: zero_bindings_def push_example_def stage_example_def)
qed

theorem PushData_layout_witness:
  "PushData_extents push_example
   \<and> AddOffset push_example 3 200
       = Inr (push_example\<lparr>buf_offsets := (replicate 32 0)[3 := 200]\<rparr>)
   \<and> PushData_extents (push_example\<lparr>buf_offsets := (replicate 32 0)[3 := 200]\<rparr>)
   \<and> PushUd stage_example zero_bindings push_example
       = Inr (zero_bindings\<lparr>Bindings.user_data := 3\<rparr>,
              push_example\<lparr>ud_regs := [102, 105, 109] @ replicate 13 0\<rparr>)
   \<and> PushData_extents (push_example\<lparr>ud_regs := [102, 105, 109] @ replicate 13 0\<rparr>)
   \<and> sizeof_struct PushData_members = 104"
proof -
  have e: "PushData_extents push_example"
    by (simp add: PushData_extents_def push_example_def NumUserDataRegs_def)
  have a: "AddOffset push_example 3 200
       = Inr (push_example\<lparr>buf_offsets := (replicate 32 0)[3 := 200]\<rparr>)"
    by (simp add: AddOffset_def push_example_def)
  note t = PushData_layout [of push_example]
  from t e a have ea: "PushData_extents (push_example\<lparr>buf_offsets := (replicate 32 0)[3 := 200]\<rparr>)"
    by blast
  from t e PushUd_example
  have ep: "PushData_extents (push_example\<lparr>ud_regs := [102, 105, 109] @ replicate 13 0\<rparr>)"
    by blast
  from t have z: "sizeof_struct PushData_members = 104" by blast
  from e a ea PushUd_example ep z show ?thesis by blast
qed

subsection \<open>Descriptor reads\<close>

lemma length_word_bytes: "length (word_bytes w) = 4"
  by (simp add: word_bytes_def)

lemma length_ud_bytes: "length (ud_bytes ws) = 4 * length ws"
  by (induction ws) (simp_all add: ud_bytes_def length_word_bytes)

lemma ud_bytes_Cons: "ud_bytes (w # ws) = word_bytes w @ ud_bytes ws"
  by (simp add: ud_bytes_def)

lemma drop_ud_bytes: "drop (4 * k) (ud_bytes ws) = ud_bytes (drop k ws)"
proof (induction ws arbitrary: k)
  case Nil
  then show ?case by (simp add: ud_bytes_def)
next
  case (Cons w ws)
  show ?case
  proof (cases k)
    case 0
    then show ?thesis by simp
  next
    case (Suc k')
    then show ?thesis
      using Cons.IH [of k'] by (simp add: ud_bytes_Cons length_word_bytes)
  qed
qed

lemma take_ud_bytes: "take (4 * n) (ud_bytes ws) = ud_bytes (take n ws)"
proof (induction ws arbitrary: n)
  case Nil
  then show ?case by (simp add: ud_bytes_def)
next
  case (Cons w ws)
  show ?case
  proof (cases n)
    case 0
    then show ?thesis by (simp add: ud_bytes_def)
  next
    case (Suc n')
    then show ?thesis
      using Cons.IH [of n'] by (simp add: ud_bytes_Cons length_word_bytes)
  qed
qed

text \<open>
  C4. When the register index is \<^verbatim>\<open>NumScalarRegs\<close>, \<^verbatim>\<open>ReadUd\<close> loads no pointer: its
  result is made of the bytes of the register words from the dword offset on, it is the
  same for every memory, and for a size of \<open>n\<close> dwords inside the span it is the
  representation of the \<open>n\<close> register words that start at the dword offset.
\<close>

theorem ReadUd_sentinel:
  fixes info :: Info
  defines "ud \<equiv> Info.user_data info"
  assumes "unat ptr_index = NumScalarRegs"
  shows "ReadUd NumScalarRegs sz info mem ptr_index off
           = (if 4 * unat off + sz \<le> 4 * length ud
              then Inr (take sz (drop (4 * unat off) (ud_bytes ud)))
              else Inl OutOfBounds)
       \<and> ReadUd NumScalarRegs sz info mem' ptr_index off
           = ReadUd NumScalarRegs sz info mem ptr_index off
       \<and> (unat off + n \<le> length ud \<longrightarrow>
            ReadUd NumScalarRegs (4 * n) info mem ptr_index off
              = Inr (ud_bytes (take n (drop (unat off) ud))))"
  using assms by (simp add: ReadUd_def drop_ud_bytes take_ud_bytes)

lemma AddressMask_take_bit: "w AND AddressMask = take_bit 48 w"
  by (simp add: AddressMask_def take_bit_eq_mask mask_eq_exp_minus_1)

lemma length_read_bytes: "length (read_bytes mem a n) = n"
  by (simp add: read_bytes_def)

lemma nth_read_bytes: "k < n \<Longrightarrow> read_bytes mem a n ! k = mem (a + of_nat k)"
  by (simp add: read_bytes_def)

lemma unat_word_cat_32:
  "unat (word_cat hi lo :: u64) = unat lo + 2 ^ 32 * unat hi" for hi lo :: u32
proof -
  have hi: "unat hi < 2 ^ 32" and lo: "unat lo < 2 ^ 32"
    using unsigned_less [of hi] unsigned_less [of lo] by simp_all
  have uh: "unat (ucast hi :: u64) = unat hi" and ul: "unat (ucast lo :: u64) = unat lo"
    using hi lo by (simp_all add: unsigned_ucast_eq take_bit_nat_eq_self)
  from hi have "unat hi * 2 ^ 32 \<le> (2 ^ 32 - 1) * 2 ^ 32" by simp
  with lo have b: "unat hi * 2 ^ 32 + unat lo < 2 ^ 64" by simp
  then have b': "unat hi * 2 ^ 32 < 2 ^ 64" by simp
  have "unat (push_bit 32 (ucast hi :: u64)) = unat hi * 2 ^ 32"
    using b' by (simp add: push_bit_eq_mult unat_word_ariths uh)
  then show ?thesis
    using b by (simp add: word_cat_eq unat_word_ariths ul)
qed

lemma unat_load_pointer:
  "unat (load_pointer ws i) = unat (ws ! i) + 2 ^ 32 * unat (ws ! Suc i)"
  by (simp add: load_pointer_def unat_word_cat_32)

lemma unat_descriptor_address:
  "unat (take_bit 48 p + 4 * (ucast off :: VAddr)) = unat p mod 2 ^ 48 + 4 * unat off"
  for p :: VAddr and off :: u32
proof -
  have o: "unat off < 2 ^ 32" using unsigned_less [of off] by simp
  then have uo: "unat (ucast off :: VAddr) = unat off"
    by (simp add: unsigned_ucast_eq take_bit_nat_eq_self)
  have m: "unat (4 * (ucast off :: VAddr)) = 4 * unat off"
    using o by (simp add: unat_word_ariths uo)
  have t: "unat (take_bit 48 p) = unat p mod 2 ^ 48"
    unfolding unsigned_take_bit_eq by (simp add: take_bit_eq_mod)
  have "unat p mod 2 ^ 48 < 2 ^ 48" by simp
  with o have "unat p mod 2 ^ 48 + 4 * unat off < 2 ^ LENGTH(64)" by simp
  then have "unat (take_bit 48 p) + unat (4 * (ucast off :: VAddr)) < 2 ^ LENGTH(64)"
    by (simp only: m t)
  then have "unat (take_bit 48 p + 4 * (ucast off :: VAddr))
      = unat (take_bit 48 p) + unat (4 * (ucast off :: VAddr))"
    by (simp only: unat_add_lem)
  then show ?thesis by (simp only: m t)
qed

text \<open>
  C6. When the register index is not \<^verbatim>\<open>NumScalarRegs\<close> and the register after it is
  inside the span, \<^verbatim>\<open>ReadUd\<close> returns the \<open>sz\<close> bytes of memory that start at the
  address \<open>addr\<close>: the 64-bit value of the two registers at the index (low word first),
  reduced to its lower 48 bits, plus four times the dword offset. The two entry kinds
  without inline descriptor always resolve by \<^verbatim>\<open>ReadUd\<close> at their register index and
  dword offset, and the buffer and sampler entries do so when their inline descriptor
  does not test true.
\<close>

theorem ReadUd_indirect:
  fixes info :: Info
  defines "ud \<equiv> Info.user_data info"
  defines "addr \<equiv> \<lambda>ptr_index off.
             take_bit 48 (load_pointer ud (unat ptr_index)) + 4 * (ucast (off :: u32) :: VAddr)"
  assumes "unat ptr_index \<noteq> NumScalarRegs" and "Suc (unat ptr_index) < length ud"
  shows "ReadUd NumScalarRegs sz info mem ptr_index off
           = Inr (read_bytes mem (addr ptr_index off) sz)
       \<and> length (read_bytes mem (addr ptr_index off) sz) = sz
       \<and> (\<forall>k < sz. read_bytes mem (addr ptr_index off) sz ! k = mem (addr ptr_index off + of_nat k))
       \<and> unat (load_pointer ud (unat ptr_index))
           = unat (ud ! unat ptr_index) + 2 ^ 32 * unat (ud ! Suc (unat ptr_index))
       \<and> unat (addr ptr_index off)
           = unat (load_pointer ud (unat ptr_index)) mod 2 ^ 48 + 4 * unat off
       \<and> TextureBufferResource_GetSharp NumScalarRegs sz t info mem
           = ReadUd NumScalarRegs sz info mem
               (TextureBufferResource.sgpr_base t) (TextureBufferResource.dword_offset t)
       \<and> ImageResource_GetSharp NumScalarRegs sz i info mem
           = ReadUd NumScalarRegs sz info mem
               (ImageResource.sgpr_base i) (ImageResource.dword_offset i)
       \<and> (\<not> valid (inline_cbuf b) \<longrightarrow>
            BufferResource_GetSharp valid NumScalarRegs sz b info mem
              = ReadUd NumScalarRegs sz info mem
                  (BufferResource.sgpr_base b) (BufferResource.dword_offset b))
       \<and> (\<not> valid (inline_sampler s) \<longrightarrow>
            SamplerResource_GetSharp valid NumScalarRegs sz s info mem
              = ReadUd NumScalarRegs sz info mem
                  (SamplerResource.sgpr_base s) (SamplerResource.dword_offset s))"
proof -
  have r: "ReadUd NumScalarRegs sz info mem ptr_index off
           = Inr (read_bytes mem (addr ptr_index off) sz)"
    using assms(3,4) by (simp add: ReadUd_def Let_def AddressMask_take_bit addr_def ud_def)
  have n: "\<forall>k < sz. read_bytes mem (addr ptr_index off) sz ! k = mem (addr ptr_index off + of_nat k)"
    by (simp add: nth_read_bytes)
  have a: "unat (addr ptr_index off)
           = unat (load_pointer ud (unat ptr_index)) mod 2 ^ 48 + 4 * unat off"
    unfolding addr_def by (rule unat_descriptor_address)
  have g: "TextureBufferResource_GetSharp NumScalarRegs sz t info mem
           = ReadUd NumScalarRegs sz info mem
               (TextureBufferResource.sgpr_base t) (TextureBufferResource.dword_offset t)"
    "ImageResource_GetSharp NumScalarRegs sz i info mem
           = ReadUd NumScalarRegs sz info mem
               (ImageResource.sgpr_base i) (ImageResource.dword_offset i)"
    "\<not> valid (inline_cbuf b) \<longrightarrow>
            BufferResource_GetSharp valid NumScalarRegs sz b info mem
              = ReadUd NumScalarRegs sz info mem
                  (BufferResource.sgpr_base b) (BufferResource.dword_offset b)"
    "\<not> valid (inline_sampler s) \<longrightarrow>
            SamplerResource_GetSharp valid NumScalarRegs sz s info mem
              = ReadUd NumScalarRegs sz info mem
                  (SamplerResource.sgpr_base s) (SamplerResource.dword_offset s)"
    by (simp_all add: TextureBufferResource_GetSharp_def ImageResource_GetSharp_def
        BufferResource_GetSharp_def SamplerResource_GetSharp_def)
  from r n a g length_read_bytes [of mem "addr ptr_index off" sz]
    unat_load_pointer [of ud "unat ptr_index"]
  show ?thesis by blast
qed

text \<open>
  C5. A buffer entry, and a sampler entry, whose inline descriptor tests true resolves to
  that descriptor, whatever the Info record and the memory are: neither is read. When
  the inline descriptor does not test true the entry resolves by \<^verbatim>\<open>ReadUd\<close>.
\<close>

theorem GetSharp_inline:
  "(valid (inline_cbuf b) \<longrightarrow>
      (\<forall>info mem. BufferResource_GetSharp valid NumScalarRegs sz b info mem = Inr (inline_cbuf b)))
   \<and> (\<not> valid (inline_cbuf b) \<longrightarrow>
      (\<forall>info mem. BufferResource_GetSharp valid NumScalarRegs sz b info mem
         = ReadUd NumScalarRegs sz info mem
             (BufferResource.sgpr_base b) (BufferResource.dword_offset b)))
   \<and> (valid (inline_sampler s) \<longrightarrow>
      (\<forall>info mem. SamplerResource_GetSharp valid NumScalarRegs sz s info mem
         = Inr (inline_sampler s)))
   \<and> (\<not> valid (inline_sampler s) \<longrightarrow>
      (\<forall>info mem. SamplerResource_GetSharp valid NumScalarRegs sz s info mem
         = ReadUd NumScalarRegs sz info mem
             (SamplerResource.sgpr_base s) (SamplerResource.dword_offset s)))"
  by (simp add: BufferResource_GetSharp_def SamplerResource_GetSharp_def)

theorem ReadUd_sentinel_witness:
  "unat (104 :: u32) = 104
   \<and> ReadUd 104 8 stage_example mem_example 104 2 = Inr [102, 0, 0, 0, 103, 0, 0, 0]
   \<and> ReadUd 104 8 stage_example (\<lambda>a. 0) 104 2 = ReadUd 104 8 stage_example mem_example 104 2"
proof -
  have h: "unat (104 :: u32) = 104" by simp
  have l: "unat (2 :: u32) + 2 \<le> length (Info.user_data stage_example)"
    by (simp add: stage_example_def)
  have b: "ud_bytes (take 2 (drop (unat (2 :: u32)) (Info.user_data stage_example)))
      = [102, 0, 0, 0, 103, 0, 0, 0]"
    by (simp add: stage_example_def ud_bytes_def word_bytes_def drop_map take_map upt_rec
        drop_bit_eq_div)
  note t = ReadUd_sentinel [OF h, where info = stage_example and off = 2 and n = 2
      and mem = mem_example and mem' = "\<lambda>a. 0"]
  from t [where sz = "4 * 2"] l
  have "ReadUd 104 (4 * 2) stage_example mem_example 104 2
      = Inr (ud_bytes (take 2 (drop (unat (2 :: u32)) (Info.user_data stage_example))))"
    by blast
  then have r: "ReadUd 104 8 stage_example mem_example 104 2 = Inr [102, 0, 0, 0, 103, 0, 0, 0]"
    by (simp only: b) simp
  from t [where sz = 8]
  have "ReadUd 104 8 stage_example (\<lambda>a. 0) 104 2 = ReadUd 104 8 stage_example mem_example 104 2"
    by blast
  with h r show ?thesis by blast
qed

theorem GetSharp_inline_witness:
  "valid_example (inline_cbuf inline_example)
   \<and> BufferResource_GetSharp valid_example 104 16 inline_example indirect_example mem_example
       = Inr (0x10 # replicate 15 0)
   \<and> \<not> valid_example (inline_cbuf (inline_example\<lparr>inline_cbuf := replicate 16 0\<rparr>))
   \<and> BufferResource_GetSharp valid_example 104 16
         (inline_example\<lparr>inline_cbuf := replicate 16 0\<rparr>) indirect_example mem_example
       = ReadUd 104 16 indirect_example mem_example 4 2"
proof -
  have v: "valid_example (inline_cbuf inline_example)"
    by (simp add: valid_example_def inline_example_def)
  have n: "\<not> valid_example (inline_cbuf (inline_example\<lparr>inline_cbuf := replicate 16 0\<rparr>))"
    by (simp add: valid_example_def list_ex_iff)
  from GetSharp_inline [of valid_example inline_example 104 16] v
  have a: "BufferResource_GetSharp valid_example 104 16 inline_example indirect_example mem_example
       = Inr (inline_cbuf inline_example)"
    by blast
  from GetSharp_inline [of valid_example "inline_example\<lparr>inline_cbuf := replicate 16 0\<rparr>" 104 16] n
  have b: "BufferResource_GetSharp valid_example 104 16
         (inline_example\<lparr>inline_cbuf := replicate 16 0\<rparr>) indirect_example mem_example
       = ReadUd 104 16 indirect_example mem_example
           (BufferResource.sgpr_base (inline_example\<lparr>inline_cbuf := replicate 16 0\<rparr>))
           (BufferResource.dword_offset (inline_example\<lparr>inline_cbuf := replicate 16 0\<rparr>))"
    by blast
  from v n a b show ?thesis by (simp add: inline_example_def)
qed

theorem ReadUd_indirect_witness:
  "unat (4 :: u32) \<noteq> 104
   \<and> Suc (unat (4 :: u32)) < length (Info.user_data indirect_example)
   \<and> unat (load_pointer (Info.user_data indirect_example) 4) = 0xABCD000100001000
   \<and> ReadUd 104 4 indirect_example mem_example 4 2 = Inr [0x08, 0x09, 0x0A, 0x0B]"
proof -
  have h1: "unat (4 :: u32) \<noteq> 104" by simp
  have h2: "Suc (unat (4 :: u32)) < length (Info.user_data indirect_example)"
    by (simp add: indirect_example_def)
  note t = ReadUd_indirect [OF h1 h2, where sz = 4 and mem = mem_example and off = 2]
  have p: "load_pointer (Info.user_data indirect_example) (unat (4 :: u32)) = 0xABCD000100001000"
    by (simp add: indirect_example_def load_pointer_def word_cat_eq)
  have a: "take_bit 48 (0xABCD000100001000 :: VAddr) + 4 * ucast (2 :: u32) = 0x100001008"
    by simp
  from t have "ReadUd 104 4 indirect_example mem_example 4 2
      = Inr (read_bytes mem_example
          (take_bit 48 (load_pointer (Info.user_data indirect_example) (unat (4 :: u32)))
           + 4 * ucast (2 :: u32)) 4)"
    by blast
  then have r: "ReadUd 104 4 indirect_example mem_example 4 2 = Inr [0x08, 0x09, 0x0A, 0x0B]"
    unfolding p a by (simp add: read_bytes_def mem_example_def upt_rec)
  from p have u: "unat (load_pointer (Info.user_data indirect_example) 4) = 0xABCD000100001000"
    by simp
  from h1 h2 u r show ?thesis by blast
qed

end
